theory Spec2Isabelle
  imports Main
begin

section \<open>Data model of the Virtual DOM demo (src/App.jsx)\<close>

text \<open>
  The component \<open>VirtualDOMDemo\<close> keeps its whole state in React state cells
  (\<open>useState\<close>). Every handler is modelled as a function from the state of the
  render in which the handler was created to the state after all its setter
  calls have been applied. Ids are JavaScript numbers holding integers
  (\<open>1\<close>, \<open>2\<close>, \<open>3\<close> and \<open>Date.now()\<close>), so they are \<open>int\<close> here, as is the
  step counter.
\<close>

record item =
  item_id :: int
  name :: string
  selected :: bool

record diff_obj =
  prev :: "item list"
  "next" :: "item list"
  changedIds :: "int list"

text \<open>
  \<open>pendingItems\<close> is either \<open>null\<close> (\<open>None\<close>) or an array. In JavaScript every
  array, the empty one included, is truthy, so \<open>if (pendingItems)\<close> is the test
  for \<open>Some\<close>.
\<close>

record state =
  items :: "item list"
  pendingItems :: "item list option"
  showDiff :: bool
  step :: int
  renderPhase :: bool
  commitPhase :: bool
  diff :: diff_obj
  showCodeExample :: bool
  isAutoMode :: bool
  isProcessActive :: bool

definition MAX_STEP :: int where
  "MAX_STEP = 5"

definition initial_items :: "item list" where
  "initial_items =
     [\<lparr>item_id = 1, name = ''Apple'', selected = False\<rparr>,
      \<lparr>item_id = 2, name = ''Banana'', selected = False\<rparr>,
      \<lparr>item_id = 3, name = ''Cherry'', selected = False\<rparr>]"

definition initial_state :: state where
  "initial_state =
     \<lparr>items = initial_items,
      pendingItems = None,
      showDiff = False,
      step = 0,
      renderPhase = False,
      commitPhase = False,
      diff = \<lparr>prev = initial_items, next = initial_items, changedIds = []\<rparr>,
      showCodeExample = False,
      isAutoMode = True,
      isProcessActive = False\<rparr>"

section \<open>The diff rule\<close>

text \<open>
  \<open>new Map(xs.map((item) => [item.id, item]))\<close>: a later entry with the same key
  replaces an earlier one, so a lookup finds the last item carrying the id.
  \<open>map_of\<close> finds the first pair, hence the reversal.
\<close>

definition item_map :: "item list \<Rightarrow> (int \<rightharpoonup> item)" where
  "item_map xs = map_of (rev (map (\<lambda>it. (item_id it, it)) xs))"

definition map_has :: "(int \<rightharpoonup> item) \<Rightarrow> int \<Rightarrow> bool" where
  "map_has m k = (m k \<noteq> None)"

text \<open>The first loop of \<open>getChangedIds\<close>: items of \<open>next\<close> that were added or toggled.\<close>

fun added_or_toggled :: "(int \<rightharpoonup> item) \<Rightarrow> item list \<Rightarrow> int list" where
  "added_or_toggled prevMap [] = []"
| "added_or_toggled prevMap (it # rest) =
     (case prevMap (item_id it) of
        None \<Rightarrow> item_id it # added_or_toggled prevMap rest
      | Some p \<Rightarrow>
          (if selected p \<noteq> selected it
           then item_id it # added_or_toggled prevMap rest
           else added_or_toggled prevMap rest))"

text \<open>The second loop: items of \<open>prev\<close> whose id is no key of \<open>nextMap\<close>.\<close>

fun removed_ids :: "(int \<rightharpoonup> item) \<Rightarrow> item list \<Rightarrow> int list" where
  "removed_ids nextMap [] = []"
| "removed_ids nextMap (it # rest) =
     (if \<not> map_has nextMap (item_id it)
      then item_id it # removed_ids nextMap rest
      else removed_ids nextMap rest)"

definition getChangedIds :: "item list \<Rightarrow> item list \<Rightarrow> int list" where
  "getChangedIds p n =
     (let prevMap = item_map p; nextMap = item_map n
      in added_or_toggled prevMap n @ removed_ids nextMap p)"

section \<open>Step control\<close>

definition startProcess :: "diff_obj \<Rightarrow> state \<Rightarrow> state" where
  "startProcess diffObj s =
     s\<lparr>diff := diffObj,
       showDiff := True,
       step := 1,
       renderPhase := True,
       commitPhase := False,
       isProcessActive := True,
       pendingItems := Some (next diffObj)\<rparr>"

definition resetProcess :: "state \<Rightarrow> state" where
  "resetProcess s =
     s\<lparr>showDiff := False,
       commitPhase := False,
       renderPhase := False,
       step := 0,
       isProcessActive := False,
       pendingItems := None\<rparr>"

text \<open>
  \<open>nextStep\<close> runs inside the updater passed to \<open>setStep\<close>: \<open>n\<close> is the new
  step, the commit happens when it is 4, and past \<open>MAX_STEP\<close> the updater
  calls \<open>resetProcess\<close> and returns 0.
\<close>

definition nextStep :: "state \<Rightarrow> state" where
  "nextStep s =
     (let n = step s + 1;
          s1 = (if n = 4
                then s\<lparr>renderPhase := False,
                       commitPhase := True,
                       items := (case pendingItems s of Some p \<Rightarrow> p | None \<Rightarrow> items s),
                       pendingItems := None\<rparr>
                else s)
      in if n > MAX_STEP then (resetProcess s1)\<lparr>step := 0\<rparr> else s1\<lparr>step := n\<rparr>)"

text \<open>
  The guard \<open>diff.prev && diff.next\<close> of \<open>previousStep\<close> tests two arrays for
  truthiness; an array is an object, so the test never fails.
\<close>

definition truthy :: "item list \<Rightarrow> bool" where
  "truthy xs = True"

definition previousStep :: "state \<Rightarrow> state" where
  "previousStep s =
     (let n = max 1 (step s - 1);
          s1 = (if step s \<ge> 4 \<and> n \<le> 3
                then (let s2 = s\<lparr>commitPhase := False, renderPhase := True\<rparr>
                      in if truthy (prev (diff s)) \<and> truthy (next (diff s))
                         then s2\<lparr>items := prev (diff s),
                                 pendingItems := Some (next (diff s))\<rparr>
                         else s2)
                else s)
      in s1\<lparr>step := n\<rparr>)"

text \<open>The mode button: \<open>setIsAutoMode((prev) => !prev)\<close>.\<close>

definition toggleMode :: "state \<Rightarrow> state" where
  "toggleMode s = s\<lparr>isAutoMode := \<not> isAutoMode s\<rparr>"

section \<open>Item actions\<close>

definition toggleItem :: "int \<Rightarrow> state \<Rightarrow> state" where
  "toggleItem i s =
     (if isProcessActive s then s
      else (let nextItems =
                  map (\<lambda>it. if item_id it = i then it\<lparr>selected := \<not> selected it\<rparr> else it)
                      (items s)
            in startProcess
                 \<lparr>prev = items s, next = nextItems,
                  changedIds = getChangedIds (items s) nextItems\<rparr> s))"

text \<open>Decimal rendering of a length, as the template literal \<open>`Item ${...}`\<close> does.\<close>

fun digits :: "nat \<Rightarrow> string" where
  "digits n =
     (if n < 10 then [char_of (48 + n)]
      else digits (n div 10) @ [char_of (48 + n mod 10)])"

declare digits.simps [simp del]

text \<open>\<open>Date.now()\<close> is read from the environment; it is the parameter \<open>now\<close>.\<close>

definition addItem :: "int \<Rightarrow> state \<Rightarrow> state" where
  "addItem now s =
     (if isProcessActive s then s
      else (let newItem = \<lparr>item_id = now,
                           name = ''Item '' @ digits (length (items s) + 1),
                           selected = False\<rparr>;
                nextItems = items s @ [newItem]
            in startProcess
                 \<lparr>prev = items s, next = nextItems,
                  changedIds = getChangedIds (items s) nextItems\<rparr> s))"

definition removeItem :: "int \<Rightarrow> state \<Rightarrow> state" where
  "removeItem i s =
     (if isProcessActive s then s
      else (let nextItems = filter (\<lambda>it. item_id it \<noteq> i) (items s)
            in startProcess
                 \<lparr>prev = items s, next = nextItems,
                  changedIds = getChangedIds (items s) nextItems\<rparr> s))"

section \<open>The rendered controls and the effects\<close>

text \<open>
  The handlers are only called from the buttons of the page and from the
  auto-advance timer. A button whose \<open>disabled\<close> attribute is true does not
  call its handler; the predicates below are the negations of those attributes.
\<close>

definition nextEnabled :: "state \<Rightarrow> bool" where
  "nextEnabled s =
     (\<not> (\<not> isProcessActive s \<or> isAutoMode s \<or> step s = 0 \<or> step s > MAX_STEP))"

definition previousEnabled :: "state \<Rightarrow> bool" where
  "previousEnabled s = (\<not> (\<not> isProcessActive s \<or> isAutoMode s \<or> step s \<le> 1))"

definition resetEnabled :: "state \<Rightarrow> bool" where
  "resetEnabled s = (\<not> (\<not> isProcessActive s))"

text \<open>
  The auto-advance effect arms a timer calling \<open>nextStep\<close> unless one of its two
  early returns is taken. Its cleanup clears the timer whenever the step, the
  mode or the active flag changes, so the timer fires only in a state where
  this guard holds.
\<close>

definition autoAdvanceArmed :: "state \<Rightarrow> bool" where
  "autoAdvanceArmed s =
     (if \<not> isProcessActive s \<or> \<not> isAutoMode s then False
      else if step s = 0 \<or> step s > MAX_STEP then False
      else True)"

text \<open>The second effect: \<open>if (step > MAX_STEP) resetProcess()\<close>.\<close>

definition overflowEffect :: "state \<Rightarrow> state" where
  "overflowEffect s = (if step s > MAX_STEP then resetProcess s else s)"

datatype event =
    ClickToggle int
  | ClickAdd int
  | ClickRemove int
  | ClickMode
  | ClickNext
  | ClickPrevious
  | ClickReset
  | TimerFires

text \<open>
  One event of the page: the handler runs if its control is enabled, then the
  overflow effect runs on the new state. \<open>ClickAdd now\<close> carries the clock
  reading of that click. The page's toggle button passes the id 1 and its
  remove button the id of the last item; the events here carry any id. The
  three mutation buttons are disabled while the process is active, which is
  the test the handlers make themselves; the remove button is also disabled on
  an empty list, a click the model nevertheless admits.
\<close>

fun handle :: "event \<Rightarrow> state \<Rightarrow> state" where
  "handle (ClickToggle i) s = toggleItem i s"
| "handle (ClickAdd now) s = addItem now s"
| "handle (ClickRemove i) s = removeItem i s"
| "handle ClickMode s = toggleMode s"
| "handle ClickNext s = (if nextEnabled s then nextStep s else s)"
| "handle ClickPrevious s = (if previousEnabled s then previousStep s else s)"
| "handle ClickReset s = (if resetEnabled s then resetProcess s else s)"
| "handle TimerFires s = (if autoAdvanceArmed s then nextStep s else s)"

definition dispatch :: "event \<Rightarrow> state \<Rightarrow> state" where
  "dispatch e s = overflowEffect (handle e s)"

fun run :: "event list \<Rightarrow> state \<Rightarrow> state" where
  "run [] s = s"
| "run (e # es) s = run es (dispatch e s)"

section \<open>Notions of the specification\<close>

definition ids :: "item list \<Rightarrow> int set" where
  "ids xs = item_id ` set xs"

text \<open>Ids present in \<open>next\<close> but absent from \<open>previous\<close>.\<close>

definition spec_added :: "item list \<Rightarrow> item list \<Rightarrow> int set" where
  "spec_added p n = {i \<in> ids n. i \<notin> ids p}"

text \<open>Ids present in both lists whose \<open>selected\<close> flags differ.\<close>

definition spec_toggled :: "item list \<Rightarrow> item list \<Rightarrow> int set" where
  "spec_toggled p n =
     {i. \<exists>a \<in> set p. \<exists>b \<in> set n. item_id a = i \<and> item_id b = i \<and> selected a \<noteq> selected b}"

text \<open>Ids present in \<open>previous\<close> but absent from \<open>next\<close>.\<close>

definition spec_removed :: "item list \<Rightarrow> item list \<Rightarrow> int set" where
  "spec_removed p n = {i \<in> ids p. i \<notin> ids n}"

definition unique_ids :: "item list \<Rightarrow> bool" where
  "unique_ids xs = distinct (map item_id xs)"

text \<open>The state \<open>Idle\<close>: step 0, not active, no pending list.\<close>

definition Idle :: "state \<Rightarrow> bool" where
  "Idle s = (step s = 0 \<and> \<not> isProcessActive s \<and> pendingItems s = None)"

text \<open>The invariant \<open>active == false \<Leftrightarrow> step == 0\<close>.\<close>

definition active_iff_step :: "state \<Rightarrow> bool" where
  "active_iff_step s = ((isProcessActive s = False) = (step s = 0))"

text \<open>Invoking \<open>start\<close> and then \<open>advance\<close> five times.\<close>

definition full_cycle :: "diff_obj \<Rightarrow> state \<Rightarrow> state" where
  "full_cycle cs s = (nextStep ^^ 5) (startProcess cs s)"

text \<open>Invoking \<open>start\<close>, then \<open>advance\<close> three times, then \<open>retreat\<close> three times.\<close>

definition round_trip :: "diff_obj \<Rightarrow> state \<Rightarrow> state" where
  "round_trip cs s = (previousStep ^^ 3) ((nextStep ^^ 3) (startProcess cs s))"

text \<open>
  What every state of the running page satisfies: the step stays in range, the
  process is active exactly off step 0, and a pending list only exists while
  the process is active.
\<close>

definition page_inv :: "state \<Rightarrow> bool" where
  "page_inv s =
     (0 \<le> step s \<and> step s \<le> MAX_STEP \<and> isProcessActive s = (step s \<noteq> 0)
      \<and> (isProcessActive s \<or> pendingItems s = None))"

section \<open>The auto-advance timer\<close>

text \<open>
  The page together with the timeout of the auto-advance effect: \<open>timer\<close> is
  the time left until the pending \<open>setTimeout\<close> callback runs, or \<open>None\<close> when
  no timeout is pending.
\<close>

record page =
  app :: state
  timer :: "nat option"

text \<open>The dependency array of the effect: \<open>[step, isAutoMode, isProcessActive]\<close>.\<close>

definition deps :: "state \<Rightarrow> int \<times> bool \<times> bool" where
  "deps s = (step s, isAutoMode s, isProcessActive s)"

text \<open>
  The body of the effect: after either early return no timeout is pending,
  otherwise \<open>setTimeout(() => nextStep(), 800)\<close> leaves one due in 800 units.
\<close>

definition autoAdvanceEffect :: "state \<Rightarrow> nat option" where
  "autoAdvanceEffect s =
     (if \<not> isProcessActive s \<or> \<not> isAutoMode s then None
      else if step s = 0 \<or> step s > MAX_STEP then None
      else Some 800)"

text \<open>
  A render with the new state \<open>s'\<close>. When a dependency differs from the render
  before, the cleanup \<open>clearTimeout(timer)\<close> of the last run drops the pending
  timeout and the body runs again; otherwise the effect is skipped and the
  timeout stays as it is.
\<close>

definition render :: "state \<Rightarrow> page \<Rightarrow> page" where
  "render s' pg =
     \<lparr>app = s',
      timer = (if deps s' = deps (app pg) then timer pg else autoAdvanceEffect s')\<rparr>"

text \<open>
  A state update: the render of the new state, then the render caused by the
  overflow effect, which is declared after the auto-advance effect.
\<close>

definition update :: "state \<Rightarrow> page \<Rightarrow> page" where
  "update s' pg = render (overflowEffect s') (render s' pg)"

text \<open>The page after mounting: the effect has run once on the initial state.\<close>

definition initial_page :: page where
  "initial_page = \<lparr>app = initial_state, timer = autoAdvanceEffect initial_state\<rparr>"

text \<open>
  A click. \<open>TimerFires\<close> is no click: in this model the callback runs when its
  delay has passed, in \<open>fire\<close>.
\<close>

fun page_click :: "event \<Rightarrow> page \<Rightarrow> page" where
  "page_click TimerFires pg = pg"
| "page_click e pg = update (handle e (app pg)) pg"

text \<open>The timeout is due: it is spent, and its callback \<open>nextStep\<close> runs.\<close>

definition fire :: "page \<Rightarrow> page" where
  "fire pg = update (nextStep (app pg)) (pg\<lparr>timer := None\<rparr>)"

text \<open>One unit of time passes, then \<open>d\<close> units with no call from outside.\<close>

definition tick :: "page \<Rightarrow> page" where
  "tick pg =
     (case timer pg of
        None \<Rightarrow> pg
      | Some r \<Rightarrow> if r \<le> 1 then fire pg else pg\<lparr>timer := Some (r - 1)\<rparr>)"

definition wait :: "nat \<Rightarrow> page \<Rightarrow> page" where
  "wait d pg = (tick ^^ d) pg"

datatype action = Click event | Wait nat

fun act :: "action \<Rightarrow> page \<Rightarrow> page" where
  "act (Click e) pg = page_click e pg"
| "act (Wait d) pg = wait d pg"

fun timed_run :: "action list \<Rightarrow> page \<Rightarrow> page" where
  "timed_run [] pg = pg"
| "timed_run (a # as) pg = timed_run as (act a pg)"

text \<open>A timeout is pending exactly when the guard of the effect holds.\<close>

definition timer_inv :: "page \<Rightarrow> bool" where
  "timer_inv pg = ((timer pg \<noteq> None) = autoAdvanceArmed (app pg))"

section \<open>Concrete inputs\<close>

text \<open>A second list: Apple toggled, Banana removed, one item added.\<close>

definition sample_next :: "item list" where
  "sample_next =
     [\<lparr>item_id = 1, name = ''Apple'', selected = True\<rparr>,
      \<lparr>item_id = 3, name = ''Cherry'', selected = False\<rparr>,
      \<lparr>item_id = 4, name = ''Item 4'', selected = False\<rparr>]"

definition sample_diff :: diff_obj where
  "sample_diff =
     \<lparr>prev = initial_items, next = sample_next, changedIds = [1, 4, 2]\<rparr>"

text \<open>The states of one playback of \<open>sample_diff\<close> from the initial state.\<close>

definition at_step1 :: state where
  "at_step1 = startProcess sample_diff initial_state"

definition at_step3 :: state where
  "at_step3 = nextStep (nextStep at_step1)"

definition at_step4 :: state where
  "at_step4 = nextStep at_step3"

definition at_step5 :: state where
  "at_step5 = nextStep at_step4"

text \<open>
  A state the page reaches when the clock reads 1 at a click on the add button:
  Apple has been toggled and committed, then an item with the id 1 has been
  added and committed, so two items with different flags carry the id 1.
\<close>

definition playback :: "event list" where
  "playback = [TimerFires, TimerFires, TimerFires, TimerFires, TimerFires]"

definition duplicate_id_state :: state where
  "duplicate_id_state =
     run ([ClickToggle 1] @ playback @ [ClickAdd 1] @ playback) initial_state"

text \<open>The page one click after mounting, with the playback of a toggle started.\<close>

definition started_page :: page where
  "started_page = page_click (ClickToggle 1) initial_page"

section \<open>Properties of the diff rule\<close>

lemma item_map_Some:
  "unique_ids xs \<Longrightarrow> (item_map xs i = Some a) = (a \<in> set xs \<and> item_id a = i)"
  unfolding item_map_def unique_ids_def
  by (subst map_of_eq_Some_iff) (auto simp: distinct_rev rev_map[symmetric] comp_def)

lemma item_map_None: "(item_map xs i = None) = (i \<notin> ids xs)"
  unfolding item_map_def ids_def
  by (auto simp: map_of_eq_None_iff image_iff)

lemma in_added_or_toggled:
  "(i \<in> set (added_or_toggled m n)) =
     (\<exists>b \<in> set n. item_id b = i \<and>
        (m i = None \<or> (\<exists>a. m i = Some a \<and> selected a \<noteq> selected b)))"
proof (induction n)
  case Nil
  show ?case by simp
next
  case (Cons x xs)
  show ?case
  proof (cases "m (item_id x)")
    case None
    then show ?thesis using Cons by auto
  next
    case (Some a)
    then show ?thesis using Cons by auto
  qed
qed

lemma in_removed_ids:
  "(i \<in> set (removed_ids m p)) = (\<exists>a \<in> set p. item_id a = i \<and> m i = None)"
  by (induction p) (auto simp: map_has_def)

text \<open>
  Claim C1. For lists with unique ids, the ids returned by \<open>getChangedIds\<close> are
  exactly the added ids, the ids whose \<open>selected\<close> flag differs between the two
  lists, and the removed ids; so they are all ids of one of the two lists.
  Only the ids of the previous list have to be unique for this.
\<close>

theorem getChangedIds_exact:
  assumes "unique_ids p"
  shows "set (getChangedIds p n) = spec_added p n \<union> spec_toggled p n \<union> spec_removed p n
       \<and> set (getChangedIds p n) \<subseteq> ids p \<union> ids n"
proof -
  have A: "(i \<in> set (added_or_toggled (item_map p) n))
             = (i \<in> spec_added p n \<union> spec_toggled p n)" for i
    unfolding in_added_or_toggled spec_added_def spec_toggled_def
    using item_map_Some [OF assms] item_map_None [of p]
    by (auto simp: ids_def)
  have B: "(i \<in> set (removed_ids (item_map n) p)) = (i \<in> spec_removed p n)" for i
    unfolding in_removed_ids spec_removed_def
    using item_map_None[of n] by (auto simp: ids_def)
  have E: "set (getChangedIds p n) = spec_added p n \<union> spec_toggled p n \<union> spec_removed p n"
    using A B by (auto simp: getChangedIds_def Let_def)
  have S: "spec_added p n \<union> spec_toggled p n \<union> spec_removed p n \<subseteq> ids p \<union> ids n"
    by (auto simp: spec_added_def spec_toggled_def spec_removed_def ids_def)
  show ?thesis using E S by simp
qed

theorem getChangedIds_exact_witness:
  "unique_ids initial_items \<and> unique_ids sample_next
   \<and> getChangedIds initial_items sample_next = [1, 4, 2]
   \<and> set (getChangedIds initial_items sample_next)
       = spec_added initial_items sample_next \<union> spec_toggled initial_items sample_next
         \<union> spec_removed initial_items sample_next
   \<and> set (getChangedIds initial_items sample_next) \<subseteq> ids initial_items \<union> ids sample_next"
proof -
  have u1: "unique_ids initial_items"
    by (simp add: unique_ids_def initial_items_def)
  have u2: "unique_ids sample_next"
    by (simp add: unique_ids_def sample_next_def)
  have v: "getChangedIds initial_items sample_next = [1, 4, 2]"
    by (simp add: getChangedIds_def item_map_def map_has_def initial_items_def sample_next_def)
  note t = getChangedIds_exact [OF u1, of sample_next]
  show ?thesis by (intro conjI u1 u2 v conjunct1 [OF t] conjunct2 [OF t])
qed

section \<open>Properties of the step controller\<close>

lemmas op_defs = startProcess_def resetProcess_def nextStep_def previousStep_def toggleMode_def
  toggleItem_def addItem_def removeItem_def MAX_STEP_def truthy_def Let_def

lemmas sample_defs = at_step1_def at_step3_def at_step4_def at_step5_def sample_diff_def
  initial_state_def

text \<open>
  Claim C2. \<open>nextStep\<close> adds one to the step while the result stays within
  \<open>MAX_STEP\<close>. When the new step is 4 the pending list, if there is one, becomes
  the list (with none pending the list is kept) and the pending list is
  cleared; for every other new step the list is left as it was. When the new
  step is past \<open>MAX_STEP\<close> the result is that of \<open>resetProcess\<close>, the state
  \<open>Idle\<close>.
\<close>

theorem nextStep_commit_and_reset:
  "(step s + 1 \<le> MAX_STEP \<longrightarrow> step (nextStep s) = step s + 1)
   \<and> (step s + 1 = 4 \<longrightarrow>
        items (nextStep s) = (case pendingItems s of Some p \<Rightarrow> p | None \<Rightarrow> items s)
        \<and> pendingItems (nextStep s) = None)
   \<and> (step s + 1 \<noteq> 4 \<longrightarrow> items (nextStep s) = items s)
   \<and> (step s + 1 > MAX_STEP \<longrightarrow> nextStep s = resetProcess s \<and> Idle (nextStep s))"
  by (simp add: op_defs Idle_def)

theorem nextStep_commit_and_reset_witness:
  "step at_step3 = 3 \<and> pendingItems at_step3 = Some sample_next
   \<and> items at_step3 = initial_items
   \<and> step (nextStep at_step3) = 4 \<and> items (nextStep at_step3) = sample_next
   \<and> pendingItems (nextStep at_step3) = None
   \<and> step at_step1 = 1 \<and> step (nextStep at_step1) = 2
   \<and> items (nextStep at_step1) = items at_step1
   \<and> step at_step5 = 5 \<and> nextStep at_step5 = resetProcess at_step5
   \<and> Idle (nextStep at_step5) \<and> items (nextStep at_step5) = items at_step5"
proof -
  have s1: "step at_step1 = 1"
    by (simp add: sample_defs op_defs)
  have s3: "step at_step3 = 3 \<and> pendingItems at_step3 = Some sample_next
            \<and> items at_step3 = initial_items"
    by (simp add: sample_defs op_defs)
  have s5: "step at_step5 = 5"
    by (simp add: sample_defs op_defs)
  show ?thesis
    using s1 s3 s5 nextStep_commit_and_reset [of at_step1]
      nextStep_commit_and_reset [of at_step3] nextStep_commit_and_reset [of at_step5]
    by (auto simp: MAX_STEP_def)
qed

text \<open>
  Claim C3. \<open>previousStep\<close> sets the step to \<open>max 1 (step - 1)\<close>, so the result
  is at least 1 and never \<open>Idle\<close>; and when the call leaves a step of 4 or more
  for a step of 3 or less, the list becomes the stored diff's \<open>prev\<close> and the
  pending list its \<open>next\<close>.
\<close>

theorem previousStep_clamp_and_rollback:
  "step (previousStep s) = max 1 (step s - 1)
   \<and> 1 \<le> step (previousStep s)
   \<and> \<not> Idle (previousStep s)
   \<and> (step s \<ge> 4 \<and> step (previousStep s) \<le> 3 \<longrightarrow>
        items (previousStep s) = prev (diff s)
        \<and> pendingItems (previousStep s) = Some (next (diff s)))"
  by (auto simp: op_defs Idle_def)

theorem previousStep_clamp_and_rollback_witness:
  "step at_step4 = 4 \<and> items at_step4 = sample_next \<and> pendingItems at_step4 = None
   \<and> diff at_step4 = sample_diff
   \<and> step (previousStep at_step4) = 3
   \<and> items (previousStep at_step4) = initial_items
   \<and> pendingItems (previousStep at_step4) = Some sample_next
   \<and> step (previousStep at_step1) = 1"
proof -
  have s4: "step at_step4 = 4 \<and> items at_step4 = sample_next \<and> pendingItems at_step4 = None
            \<and> diff at_step4 = sample_diff"
    by (simp add: sample_defs op_defs)
  have s1: "step at_step1 = 1"
    by (simp add: sample_defs op_defs)
  show ?thesis
    using s1 s4 previousStep_clamp_and_rollback [of at_step4]
      previousStep_clamp_and_rollback [of at_step1]
    by (simp add: sample_diff_def)
qed

text \<open>
  Claim C5. For every diff \<open>cs\<close> and every state, so in particular from \<open>Idle\<close>,
  \<open>startProcess cs\<close> followed by five calls of \<open>nextStep\<close> ends with the list
  equal to \<open>next cs\<close> and the controller \<open>Idle\<close>.
\<close>

theorem full_cycle_commits_next:
  "items (full_cycle cs s) = next cs \<and> Idle (full_cycle cs s)"
  by (simp add: full_cycle_def eval_nat_numeral op_defs Idle_def)

theorem full_cycle_commits_next_witness:
  "items (full_cycle sample_diff initial_state) = sample_next
   \<and> step (full_cycle sample_diff initial_state) = 0
   \<and> isProcessActive (full_cycle sample_diff initial_state) = False
   \<and> pendingItems (full_cycle sample_diff initial_state) = None"
  using full_cycle_commits_next [of sample_diff initial_state]
  by (simp add: Idle_def sample_diff_def)

text \<open>
  Claim C6. When \<open>prev cs\<close> is the current list, \<open>startProcess cs\<close>, three calls
  of \<open>nextStep\<close> and three calls of \<open>previousStep\<close> end with the list as it was
  before, at step 1, with \<open>next cs\<close> pending.
\<close>

theorem round_trip_restores_list:
  assumes "prev cs = items s"
  shows "items (round_trip cs s) = items s \<and> step (round_trip cs s) = 1
       \<and> pendingItems (round_trip cs s) = Some (next cs)"
  using assms by (simp add: round_trip_def eval_nat_numeral op_defs)

theorem round_trip_restores_list_witness:
  "prev sample_diff = items initial_state
   \<and> items ((nextStep ^^ 3) (startProcess sample_diff initial_state)) = sample_next
   \<and> items (round_trip sample_diff initial_state) = initial_items
   \<and> step (round_trip sample_diff initial_state) = 1
   \<and> pendingItems (round_trip sample_diff initial_state) = Some sample_next"
proof -
  have h: "prev sample_diff = items initial_state"
    by (simp add: sample_diff_def initial_state_def)
  have c: "items ((nextStep ^^ 3) (startProcess sample_diff initial_state)) = sample_next"
    by (simp add: eval_nat_numeral op_defs sample_diff_def)
  show ?thesis
    using h c round_trip_restores_list [OF h]
    by (simp add: sample_diff_def initial_state_def)
qed

text \<open>
  Claim C8. From any state \<open>resetProcess\<close> gives \<open>Idle\<close> (step 0, not active,
  nothing pending) and leaves the stored diff and the list as they were.
\<close>

theorem resetProcess_keeps_diff_and_list:
  "step (resetProcess s) = 0 \<and> isProcessActive (resetProcess s) = False
   \<and> pendingItems (resetProcess s) = None \<and> Idle (resetProcess s)
   \<and> diff (resetProcess s) = diff s
   \<and> prev (diff (resetProcess s)) = prev (diff s)
   \<and> next (diff (resetProcess s)) = next (diff s)
   \<and> changedIds (diff (resetProcess s)) = changedIds (diff s)
   \<and> items (resetProcess s) = items s"
  by (simp add: op_defs Idle_def)

theorem resetProcess_keeps_diff_and_list_witness:
  "Idle (resetProcess at_step4) \<and> diff (resetProcess at_step4) = sample_diff
   \<and> items (resetProcess at_step4) = sample_next"
proof -
  have s4: "items at_step4 = sample_next \<and> diff at_step4 = sample_diff"
    by (simp add: sample_defs op_defs)
  show ?thesis
    using s4 resetProcess_keeps_diff_and_list [of at_step4] by simp
qed

section \<open>The states the page can reach\<close>

lemma page_inv_dispatch: "page_inv s \<Longrightarrow> page_inv (dispatch e s)"
  by (cases e)
     (auto simp: page_inv_def dispatch_def overflowEffect_def op_defs nextEnabled_def
        previousEnabled_def resetEnabled_def autoAdvanceArmed_def)

lemma page_inv_run: "page_inv s \<Longrightarrow> page_inv (run es s)"
  by (induction es arbitrary: s) (auto intro: page_inv_dispatch)

lemma page_inv_initial: "page_inv initial_state"
  by (simp add: page_inv_def initial_state_def MAX_STEP_def)

text \<open>
  Claim C4. While the process is active, \<open>toggleItem\<close>, \<open>addItem\<close> and
  \<open>removeItem\<close> return the state they were given, whatever the id; they are
  total, so no error is raised. Hence in every state the page reaches from its
  initial state, a mutation that does change the state, which is one that calls
  \<open>startProcess\<close>, was called in \<open>Idle\<close>.
\<close>

theorem mutation_noop_while_active:
  "(isProcessActive s \<longrightarrow>
      toggleItem i s = s \<and> addItem now s = s \<and> removeItem i s = s)
   \<and> (s = run es initial_state
        \<and> (toggleItem i s \<noteq> s \<or> addItem now s \<noteq> s \<or> removeItem i s \<noteq> s)
      \<longrightarrow> Idle s)"
proof -
  have a: "isProcessActive s \<longrightarrow>
             toggleItem i s = s \<and> addItem now s = s \<and> removeItem i s = s"
    by (simp add: toggleItem_def addItem_def removeItem_def)
  have b: "Idle s" if "s = run es initial_state" and "\<not> isProcessActive s"
    using page_inv_run [OF page_inv_initial, of es] that
    by (auto simp: page_inv_def Idle_def)
  show ?thesis using a b by blast
qed

theorem mutation_noop_while_active_witness:
  "isProcessActive at_step1
   \<and> toggleItem 1 at_step1 = at_step1 \<and> addItem 1700000000000 at_step1 = at_step1
   \<and> removeItem 1 at_step1 = at_step1
   \<and> initial_state = run [] initial_state
   \<and> toggleItem 1 initial_state \<noteq> initial_state
   \<and> Idle initial_state"
proof -
  have a: "isProcessActive at_step1"
    by (simp add: sample_defs op_defs)
  have r: "initial_state = run [] initial_state"
    by simp
  have "isProcessActive (toggleItem 1 initial_state) \<noteq> isProcessActive initial_state"
    by (simp add: toggleItem_def startProcess_def Let_def initial_state_def)
  then have c: "toggleItem 1 initial_state \<noteq> initial_state"
    by auto
  show ?thesis
    using a r c mutation_noop_while_active [of at_step1 1 1700000000000 "[]"]
      mutation_noop_while_active [of initial_state 1 1700000000000 "[]"]
    by simp
qed

text \<open>
  Claim C7, as amended. The invariant holds in the initial state; \<open>toggleItem\<close>,
  \<open>addItem\<close>, \<open>removeItem\<close>, \<open>resetProcess\<close> and the mode switch preserve it from
  every state; \<open>nextStep\<close> and \<open>previousStep\<close> preserve it from a state with a
  step of 0 or more exactly when the process is active there; and it holds in
  every state the page reaches, since the controls and the timer call
  \<open>nextStep\<close> and \<open>previousStep\<close> only while the process is active.
\<close>

theorem active_iff_step_preserved:
  "active_iff_step initial_state
   \<and> (active_iff_step s \<longrightarrow>
        active_iff_step (toggleItem i s) \<and> active_iff_step (addItem now s)
        \<and> active_iff_step (removeItem i s) \<and> active_iff_step (resetProcess s)
        \<and> active_iff_step (toggleMode s))
   \<and> (active_iff_step s \<and> 0 \<le> step s \<longrightarrow>
        active_iff_step (nextStep s) = isProcessActive s
        \<and> active_iff_step (previousStep s) = isProcessActive s)
   \<and> active_iff_step (run es initial_state)"
proof -
  have "active_iff_step (run es initial_state)"
    using page_inv_run [OF page_inv_initial, of es]
    by (auto simp: page_inv_def active_iff_step_def)
  moreover have "active_iff_step initial_state"
    by (simp add: active_iff_step_def initial_state_def)
  moreover have "active_iff_step s \<longrightarrow>
        active_iff_step (toggleItem i s) \<and> active_iff_step (addItem now s)
        \<and> active_iff_step (removeItem i s) \<and> active_iff_step (resetProcess s)
        \<and> active_iff_step (toggleMode s)"
    by (simp add: active_iff_step_def op_defs)
  moreover have "active_iff_step s \<and> 0 \<le> step s \<longrightarrow>
        active_iff_step (nextStep s) = isProcessActive s
        \<and> active_iff_step (previousStep s) = isProcessActive s"
    by (auto simp: active_iff_step_def op_defs)
  ultimately show ?thesis by blast
qed

theorem active_iff_step_preserved_witness:
  "active_iff_step at_step5 \<and> 0 \<le> step at_step5 \<and> isProcessActive at_step5
   \<and> active_iff_step (nextStep at_step5) \<and> active_iff_step (previousStep at_step5)
   \<and> active_iff_step (toggleItem 1 at_step5) \<and> active_iff_step (resetProcess at_step5)
   \<and> active_iff_step (toggleMode at_step5)
   \<and> active_iff_step (addItem 1700000000000 initial_state)
   \<and> active_iff_step (removeItem 3 initial_state)
   \<and> active_iff_step (run [ClickToggle 1, TimerFires, ClickMode, ClickNext, ClickPrevious]
        initial_state)"
proof -
  have a: "active_iff_step at_step5 \<and> 0 \<le> step at_step5 \<and> isProcessActive at_step5"
    by (simp add: active_iff_step_def sample_defs op_defs)
  show ?thesis
    using a
      active_iff_step_preserved [of at_step5 1 0 "[]"]
      active_iff_step_preserved [of initial_state 3 1700000000000
        "[ClickToggle 1, TimerFires, ClickMode, ClickNext, ClickPrevious]"]
    by simp
qed

text \<open>
  The claim as it was written fails: called in the initial state, where the
  invariant holds, \<open>nextStep\<close> and \<open>previousStep\<close> both set the step to 1 and
  leave the process inactive.
\<close>

theorem active_iff_step_broken_from_idle:
  "active_iff_step initial_state
   \<and> step (nextStep initial_state) = 1 \<and> isProcessActive (nextStep initial_state) = False
   \<and> \<not> active_iff_step (nextStep initial_state)
   \<and> step (previousStep initial_state) = 1
   \<and> isProcessActive (previousStep initial_state) = False
   \<and> \<not> active_iff_step (previousStep initial_state)"
  by (simp add: active_iff_step_def initial_state_def op_defs)

section \<open>Mutations that change nothing\<close>

lemma unique_ids_eq:
  "unique_ids xs \<Longrightarrow> a \<in> set xs \<Longrightarrow> b \<in> set xs \<Longrightarrow> item_id a = item_id b \<Longrightarrow> a = b"
  unfolding unique_ids_def by (auto simp: distinct_map dest: inj_onD)

lemma getChangedIds_same:
  assumes "unique_ids xs"
  shows "getChangedIds xs xs = []"
proof -
  have "i \<notin> set (added_or_toggled (item_map xs) xs)" for i
  proof
    assume "i \<in> set (added_or_toggled (item_map xs) xs)"
    then obtain b where b: "b \<in> set xs" "item_id b = i"
      and c: "item_map xs i = None
              \<or> (\<exists>a. item_map xs i = Some a \<and> selected a \<noteq> selected b)"
      unfolding in_added_or_toggled by blast
    from c show False
    proof
      assume "item_map xs i = None"
      then show False using b by (auto simp: item_map_None ids_def)
    next
      assume "\<exists>a. item_map xs i = Some a \<and> selected a \<noteq> selected b"
      then obtain a where a: "item_map xs i = Some a" "selected a \<noteq> selected b"
        by blast
      from a(1) have "a \<in> set xs" "item_id a = i"
        using item_map_Some [OF assms] by auto
      with b have "a = b"
        using unique_ids_eq [OF assms] by simp
      with a(2) show False by simp
    qed
  qed
  then have a: "added_or_toggled (item_map xs) xs = []"
    by (meson last_in_set)
  have "i \<notin> set (removed_ids (item_map xs) xs)" for i
    unfolding in_removed_ids
    using item_map_None [of xs] by (auto simp: ids_def)
  then have r: "removed_ids (item_map xs) xs = []"
    by (meson last_in_set)
  show ?thesis by (simp add: getChangedIds_def a r)
qed

text \<open>
  Claim C10, as amended. When the process is not active, \<open>toggleItem\<close> and
  \<open>removeItem\<close> called with an id that no item carries still start a playback
  (step 1, active) whose diff has the current list as \<open>next\<close>; and when the
  ids of the list are unique, that diff has no changed id.
\<close>

theorem absent_id_starts_identity_cycle:
  assumes "\<not> isProcessActive s" and "i \<notin> ids (items s)"
  shows "step (toggleItem i s) = 1 \<and> isProcessActive (toggleItem i s)
       \<and> next (diff (toggleItem i s)) = items s
       \<and> step (removeItem i s) = 1 \<and> isProcessActive (removeItem i s)
       \<and> next (diff (removeItem i s)) = items s
       \<and> (unique_ids (items s) \<longrightarrow>
            changedIds (diff (toggleItem i s)) = []
            \<and> changedIds (diff (removeItem i s)) = [])"
proof -
  have m: "map (\<lambda>it. if item_id it = i then it\<lparr>selected := \<not> selected it\<rparr> else it) (items s)
             = items s"
    using assms(2) by (intro map_idI) (auto simp: ids_def)
  have f: "filter (\<lambda>it. item_id it \<noteq> i) (items s) = items s"
    using assms(2) by (auto simp: ids_def filter_id_conv)
  show ?thesis
    using assms(1) getChangedIds_same [of "items s"]
    by (simp add: toggleItem_def removeItem_def startProcess_def Let_def m f)
qed

theorem absent_id_starts_identity_cycle_witness:
  "\<not> isProcessActive initial_state \<and> 99 \<notin> ids (items initial_state)
   \<and> unique_ids (items initial_state)
   \<and> step (toggleItem 99 initial_state) = 1 \<and> isProcessActive (toggleItem 99 initial_state)
   \<and> next (diff (toggleItem 99 initial_state)) = initial_items
   \<and> changedIds (diff (toggleItem 99 initial_state)) = []
   \<and> step (removeItem 99 initial_state) = 1 \<and> isProcessActive (removeItem 99 initial_state)
   \<and> next (diff (removeItem 99 initial_state)) = initial_items
   \<and> changedIds (diff (removeItem 99 initial_state)) = []"
proof -
  have h1: "\<not> isProcessActive initial_state"
    by (simp add: initial_state_def)
  have h2: "99 \<notin> ids (items initial_state)"
    by (simp add: ids_def initial_state_def initial_items_def)
  have h3: "unique_ids (items initial_state)"
    by (simp add: unique_ids_def initial_state_def initial_items_def)
  have e: "items initial_state = initial_items"
    by (simp add: initial_state_def)
  show ?thesis
    using h1 h2 h3 absent_id_starts_identity_cycle [OF h1 h2] by (simp add: e)
qed

text \<open>
  The claim as it was written fails on a list in which two items with
  different flags carry one id: \<open>getChangedIds\<close> compares each item with the
  last item of its id, so the diff of the list with itself reports that id.
\<close>

lemma digits_4: "digits (Suc (Suc (Suc (Suc 0)))) = ''4''"
  by code_simp

lemma duplicate_id_state_items:
  "items duplicate_id_state =
     [\<lparr>item_id = 1, name = ''Apple'', selected = True\<rparr>,
      \<lparr>item_id = 2, name = ''Banana'', selected = False\<rparr>,
      \<lparr>item_id = 3, name = ''Cherry'', selected = False\<rparr>,
      \<lparr>item_id = 1, name = ''Item 4'', selected = False\<rparr>]
   \<and> isProcessActive duplicate_id_state = False
   \<and> step duplicate_id_state = 0 \<and> pendingItems duplicate_id_state = None"
  by (simp add: duplicate_id_state_def playback_def dispatch_def overflowEffect_def
        autoAdvanceArmed_def op_defs initial_state_def initial_items_def
        getChangedIds_def item_map_def map_has_def digits_4)

theorem absent_id_changed_ids_not_empty:
  "Idle duplicate_id_state \<and> 99 \<notin> ids (items duplicate_id_state)
   \<and> step (toggleItem 99 duplicate_id_state) = 1
   \<and> step (removeItem 99 duplicate_id_state) = 1
   \<and> next (diff (toggleItem 99 duplicate_id_state)) = items duplicate_id_state
   \<and> changedIds (diff (toggleItem 99 duplicate_id_state)) = [1]
   \<and> next (diff (removeItem 99 duplicate_id_state)) = items duplicate_id_state
   \<and> changedIds (diff (removeItem 99 duplicate_id_state)) = [1]"
  using duplicate_id_state_items
  by (simp add: Idle_def ids_def toggleItem_def removeItem_def startProcess_def Let_def
        getChangedIds_def item_map_def map_has_def)

section \<open>Properties of the auto-advance timer\<close>

lemma autoAdvanceEffect_armed:
  "autoAdvanceEffect s = (if autoAdvanceArmed s then Some 800 else None)"
  by (simp add: autoAdvanceEffect_def autoAdvanceArmed_def)

lemma armed_deps: "deps s' = deps s \<Longrightarrow> autoAdvanceArmed s' = autoAdvanceArmed s"
  by (simp add: deps_def autoAdvanceArmed_def)

lemma deps_nextStep: "deps (nextStep s) \<noteq> deps s"
  by (simp add: deps_def op_defs)

lemma timer_inv_render: "timer_inv pg \<Longrightarrow> timer_inv (render s' pg)"
  by (auto simp: timer_inv_def render_def autoAdvanceEffect_armed dest: armed_deps)

lemma timer_inv_update: "timer_inv pg \<Longrightarrow> timer_inv (update s' pg)"
  by (simp add: update_def timer_inv_render)

lemma timer_inv_click: "timer_inv pg \<Longrightarrow> timer_inv (page_click e pg)"
  by (cases e) (simp_all add: timer_inv_update)

lemma timer_inv_fire: "timer_inv (fire pg)"
proof -
  have "timer_inv (render (nextStep (app pg)) (pg\<lparr>timer := None\<rparr>))"
    using deps_nextStep [of "app pg"]
    by (simp add: timer_inv_def render_def autoAdvanceEffect_armed)
  then show ?thesis
    by (simp add: fire_def update_def timer_inv_render)
qed

lemma timer_inv_tick:
  assumes "timer_inv pg"
  shows "timer_inv (tick pg)"
proof (cases "timer pg")
  case None
  then show ?thesis using assms by (simp add: tick_def)
next
  case (Some r)
  show ?thesis
  proof (cases "r \<le> 1")
    case True
    then show ?thesis using Some by (simp add: tick_def timer_inv_fire)
  next
    case False
    then show ?thesis using Some assms by (simp add: tick_def timer_inv_def)
  qed
qed

lemma timer_inv_wait: "timer_inv pg \<Longrightarrow> timer_inv (wait d pg)"
  by (induction d) (simp_all add: wait_def timer_inv_tick)

lemma timer_inv_act: "timer_inv pg \<Longrightarrow> timer_inv (act a pg)"
  by (cases a) (simp_all add: timer_inv_click timer_inv_wait)

lemma timer_inv_timed_run: "timer_inv pg \<Longrightarrow> timer_inv (timed_run as pg)"
  by (induction as arbitrary: pg) (simp_all add: timer_inv_act)

lemma timer_inv_initial: "timer_inv initial_page"
  by (simp add: timer_inv_def initial_page_def autoAdvanceEffect_armed)

lemma wait_pending:
  "timer pg = Some r \<Longrightarrow> d < r \<Longrightarrow> wait d pg = pg\<lparr>timer := Some (r - d)\<rparr>"
proof (induction d)
  case 0
  then show ?case by (simp add: wait_def)
next
  case (Suc d)
  then have "wait d pg = pg\<lparr>timer := Some (r - d)\<rparr>" by simp
  moreover have "wait (Suc d) pg = tick (wait d pg)" by (simp add: wait_def)
  moreover have "fire (pg\<lparr>timer := Some (r - d)\<rparr>) = fire pg" by (simp add: fire_def)
  ultimately show ?case using Suc.prems by (simp add: tick_def)
qed

lemma wait_due: "timer pg = Some r \<Longrightarrow> 0 < r \<Longrightarrow> wait r pg = fire pg"
proof -
  assume t: "timer pg = Some r" and p: "0 < r"
  then obtain d where d: "r = Suc d" by (cases r) auto
  have "wait d pg = pg\<lparr>timer := Some (r - d)\<rparr>"
    using wait_pending [OF t, of d] d by simp
  moreover have "wait r pg = tick (wait d pg)" by (simp add: wait_def d)
  moreover have "fire (pg\<lparr>timer := Some (r - d)\<rparr>) = fire pg" by (simp add: fire_def)
  ultimately show ?thesis using d by (simp add: tick_def)
qed

lemma wait_add: "wait (a + b) pg = wait b (wait a pg)"
  unfolding wait_def by (metis add.commute funpow_add comp_apply)

lemma wait_idle: "timer pg = None \<Longrightarrow> wait d pg = pg"
  by (induction d) (simp_all add: wait_def tick_def)

lemma app_fire: "app (fire pg) = nextStep (app pg)"
  by (simp add: fire_def update_def render_def overflowEffect_def op_defs)

lemma timer_fire: "timer (fire pg) = autoAdvanceEffect (nextStep (app pg))"
  using deps_nextStep [of "app pg"]
  by (simp add: fire_def update_def render_def overflowEffect_def op_defs)

lemma schedule_on_step_change:
  assumes "isAutoMode s'" and "isProcessActive s'" and "0 < step s'" and "step s' \<le> MAX_STEP"
    and "step s' \<noteq> step (app pg)"
  shows "timer (update s' pg) = Some 800 \<and> app (update s' pg) = s'"
  using assms
  by (simp add: update_def render_def overflowEffect_def autoAdvanceEffect_def deps_def)

lemma cancel_on_leaving:
  assumes "autoAdvanceArmed (app pg)" and "\<not> autoAdvanceArmed s'"
  shows "timer (update s' pg) = None"
proof -
  have "deps s' \<noteq> deps (app pg)"
    using assms armed_deps by blast
  then have "timer (render s' pg) = None"
    using assms(2) by (simp add: render_def autoAdvanceEffect_armed)
  moreover have "\<not> autoAdvanceArmed (overflowEffect s')"
    using assms(2)
    by (auto simp: overflowEffect_def autoAdvanceArmed_def op_defs split: if_splits)
  ultimately show ?thesis
    by (simp add: update_def render_def autoAdvanceEffect_armed)
qed

lemma click_starts:
  assumes "\<not> isProcessActive (app pg)"
    and "e = ClickToggle i \<or> e = ClickAdd now \<or> e = ClickRemove i"
  shows "step (app (page_click e pg)) = 1 \<and> isProcessActive (app (page_click e pg))
       \<and> isAutoMode (app (page_click e pg)) = isAutoMode (app pg)
       \<and> pendingItems (app (page_click e pg)) = Some (next (diff (app (page_click e pg))))
       \<and> timer (page_click e pg) = autoAdvanceEffect (app (page_click e pg))"
  using assms
  by (auto simp: update_def render_def overflowEffect_def deps_def op_defs)

lemma playback_by_timer:
  assumes "step (app pg) = 1" and "isProcessActive (app pg)" and "isAutoMode (app pg)"
    and "pendingItems (app pg) = Some p" and "timer pg = Some 800"
  shows "step (app (wait 800 pg)) = 2 \<and> step (app (wait 1600 pg)) = 3
       \<and> step (app (wait 2400 pg)) = 4 \<and> step (app (wait 3200 pg)) = 5
       \<and> Idle (app (wait 4000 pg)) \<and> items (app (wait 4000 pg)) = p
       \<and> timer (wait 4000 pg) = None"
proof -
  define p2 where "p2 = fire pg"
  define p3 where "p3 = fire p2"
  define p4 where "p4 = fire p3"
  define p5 where "p5 = fire p4"
  define p6 where "p6 = fire p5"
  have s2: "step (app p2) = 2 \<and> isProcessActive (app p2) \<and> isAutoMode (app p2)
            \<and> pendingItems (app p2) = Some p \<and> timer p2 = Some 800"
    using assms unfolding p2_def
    by (simp add: app_fire timer_fire autoAdvanceEffect_def op_defs)
  have s3: "step (app p3) = 3 \<and> isProcessActive (app p3) \<and> isAutoMode (app p3)
            \<and> pendingItems (app p3) = Some p \<and> timer p3 = Some 800"
    using s2 unfolding p3_def
    by (simp add: app_fire timer_fire autoAdvanceEffect_def op_defs)
  have s4: "step (app p4) = 4 \<and> isProcessActive (app p4) \<and> isAutoMode (app p4)
            \<and> items (app p4) = p \<and> timer p4 = Some 800"
    using s3 unfolding p4_def
    by (simp add: app_fire timer_fire autoAdvanceEffect_def op_defs)
  have s5: "step (app p5) = 5 \<and> isProcessActive (app p5) \<and> isAutoMode (app p5)
            \<and> items (app p5) = p \<and> timer p5 = Some 800"
    using s4 unfolding p5_def
    by (simp add: app_fire timer_fire autoAdvanceEffect_def op_defs)
  have s6: "Idle (app p6) \<and> items (app p6) = p \<and> timer p6 = None"
    using s5 unfolding p6_def
    by (simp add: app_fire timer_fire autoAdvanceEffect_def Idle_def op_defs)
  have w1: "wait 800 pg = p2"
    using wait_due [of pg 800] assms(5) by (simp add: p2_def)
  have w2: "wait 1600 pg = p3"
    using wait_add [of 800 800 pg] wait_due [of p2 800] s2 w1 by (simp add: p3_def)
  have w3: "wait 2400 pg = p4"
    using wait_add [of 1600 800 pg] wait_due [of p3 800] s3 w2 by (simp add: p4_def)
  have w4: "wait 3200 pg = p5"
    using wait_add [of 2400 800 pg] wait_due [of p4 800] s4 w3 by (simp add: p5_def)
  have w5: "wait 4000 pg = p6"
    using wait_add [of 3200 800 pg] wait_due [of p5 800] s5 w4 by (simp add: p6_def)
  show ?thesis
    using s2 s3 s4 s5 s6 w1 w2 w3 w4 w5 by simp
qed

text \<open>
  Claim C9. In auto mode a render whose state is active with a step from 1 to
  5, and whose step differs from the render before, leaves a timeout of 800
  units pending; while fewer than 800 units pass nothing changes, and at 800
  the callback \<open>nextStep\<close> runs. So after one mutation click on an inactive
  page in auto mode, time alone takes the step through 2, 3, 4 and 5 and, after
  4000 units, back to \<open>Idle\<close> with the diff's \<open>next\<close> list committed and no
  timeout pending, after which waiting changes nothing. A switch to manual
  mode, a reset, and every update that leaves the window in which the guard
  holds drop the pending timeout, and then waiting changes nothing. On every
  page reached from the mounted one by clicks and waiting, a timeout is
  pending exactly when the guard of the effect holds.
\<close>

theorem auto_advance_timer:
  "(isAutoMode s' \<and> isProcessActive s' \<and> 0 < step s' \<and> step s' \<le> MAX_STEP
      \<and> step s' \<noteq> step (app pg)
      \<longrightarrow> timer (update s' pg) = Some 800)
   \<and> (timer pg = Some 800 \<longrightarrow>
        (\<forall>d < 800. app (wait d pg) = app pg \<and> timer (wait d pg) = Some (800 - d))
        \<and> app (wait 800 pg) = nextStep (app pg))
   \<and> (\<not> isProcessActive (app pg) \<and> isAutoMode (app pg)
        \<and> (e = ClickToggle i \<or> e = ClickAdd now \<or> e = ClickRemove i)
      \<longrightarrow> step (app (page_click e pg)) = 1
          \<and> timer (page_click e pg) = Some 800
          \<and> step (app (wait 800 (page_click e pg))) = 2
          \<and> step (app (wait 1600 (page_click e pg))) = 3
          \<and> step (app (wait 2400 (page_click e pg))) = 4
          \<and> step (app (wait 3200 (page_click e pg))) = 5
          \<and> Idle (app (wait 4000 (page_click e pg)))
          \<and> items (app (wait 4000 (page_click e pg))) = next (diff (app (page_click e pg)))
          \<and> timer (wait 4000 (page_click e pg)) = None
          \<and> wait (4000 + d) (page_click e pg) = wait 4000 (page_click e pg))
   \<and> (isAutoMode (app pg) \<longrightarrow>
        timer (page_click ClickMode pg) = None
        \<and> wait d (page_click ClickMode pg) = page_click ClickMode pg)
   \<and> (isProcessActive (app pg) \<longrightarrow>
        timer (page_click ClickReset pg) = None
        \<and> wait d (page_click ClickReset pg) = page_click ClickReset pg)
   \<and> (autoAdvanceArmed (app pg) \<and> \<not> autoAdvanceArmed s' \<longrightarrow>
        timer (update s' pg) = None \<and> wait d (update s' pg) = update s' pg)
   \<and> timer_inv (timed_run as initial_page)"
proof -
  have a: "isAutoMode s' \<and> isProcessActive s' \<and> 0 < step s' \<and> step s' \<le> MAX_STEP
      \<and> step s' \<noteq> step (app pg) \<longrightarrow> timer (update s' pg) = Some 800"
    using schedule_on_step_change [of s' pg] by blast
  have b: "timer pg = Some 800 \<longrightarrow>
        (\<forall>d < 800. app (wait d pg) = app pg \<and> timer (wait d pg) = Some (800 - d))
        \<and> app (wait 800 pg) = nextStep (app pg)"
  proof
    assume t: "timer pg = Some 800"
    have "app (wait x pg) = app pg \<and> timer (wait x pg) = Some (800 - x)" if "x < 800" for x
      using wait_pending [OF t that] by simp
    moreover have "app (wait 800 pg) = nextStep (app pg)"
      using wait_due [OF t] by (simp add: app_fire)
    ultimately show "(\<forall>d < 800. app (wait d pg) = app pg \<and> timer (wait d pg) = Some (800 - d))
        \<and> app (wait 800 pg) = nextStep (app pg)"
      by blast
  qed
  have c: "\<not> isProcessActive (app pg) \<and> isAutoMode (app pg)
        \<and> (e = ClickToggle i \<or> e = ClickAdd now \<or> e = ClickRemove i)
      \<longrightarrow> step (app (page_click e pg)) = 1
          \<and> timer (page_click e pg) = Some 800
          \<and> step (app (wait 800 (page_click e pg))) = 2
          \<and> step (app (wait 1600 (page_click e pg))) = 3
          \<and> step (app (wait 2400 (page_click e pg))) = 4
          \<and> step (app (wait 3200 (page_click e pg))) = 5
          \<and> Idle (app (wait 4000 (page_click e pg)))
          \<and> items (app (wait 4000 (page_click e pg))) = next (diff (app (page_click e pg)))
          \<and> timer (wait 4000 (page_click e pg)) = None
          \<and> wait (4000 + d) (page_click e pg) = wait 4000 (page_click e pg)"
  proof
    assume h: "\<not> isProcessActive (app pg) \<and> isAutoMode (app pg)
        \<and> (e = ClickToggle i \<or> e = ClickAdd now \<or> e = ClickRemove i)"
    define q where "q = page_click e pg"
    have st: "step (app q) = 1 \<and> isProcessActive (app q) \<and> isAutoMode (app q)
              \<and> pendingItems (app q) = Some (next (diff (app q)))
              \<and> timer q = autoAdvanceEffect (app q)"
      using click_starts [of pg e i now] h unfolding q_def by blast
    then have tq: "timer q = Some 800"
      by (simp add: autoAdvanceEffect_def MAX_STEP_def)
    have pb: "step (app (wait 800 q)) = 2 \<and> step (app (wait 1600 q)) = 3
       \<and> step (app (wait 2400 q)) = 4 \<and> step (app (wait 3200 q)) = 5
       \<and> Idle (app (wait 4000 q)) \<and> items (app (wait 4000 q)) = next (diff (app q))
       \<and> timer (wait 4000 q) = None"
      using playback_by_timer [of q "next (diff (app q))"] st tq by blast
    then have "wait (4000 + d) q = wait 4000 q"
      using wait_add [of 4000 d q] wait_idle [of "wait 4000 q" d] by simp
    then show "step (app (page_click e pg)) = 1
          \<and> timer (page_click e pg) = Some 800
          \<and> step (app (wait 800 (page_click e pg))) = 2
          \<and> step (app (wait 1600 (page_click e pg))) = 3
          \<and> step (app (wait 2400 (page_click e pg))) = 4
          \<and> step (app (wait 3200 (page_click e pg))) = 5
          \<and> Idle (app (wait 4000 (page_click e pg)))
          \<and> items (app (wait 4000 (page_click e pg))) = next (diff (app (page_click e pg)))
          \<and> timer (wait 4000 (page_click e pg)) = None
          \<and> wait (4000 + d) (page_click e pg) = wait 4000 (page_click e pg)"
      using st tq pb unfolding q_def by blast
  qed
  have m: "isAutoMode (app pg) \<longrightarrow>
        timer (page_click ClickMode pg) = None
        \<and> wait d (page_click ClickMode pg) = page_click ClickMode pg"
  proof
    assume "isAutoMode (app pg)"
    then have "timer (page_click ClickMode pg) = None"
      by (simp add: update_def render_def overflowEffect_def autoAdvanceEffect_def deps_def
            op_defs)
    then show "timer (page_click ClickMode pg) = None
        \<and> wait d (page_click ClickMode pg) = page_click ClickMode pg"
      using wait_idle by blast
  qed
  have r: "isProcessActive (app pg) \<longrightarrow>
        timer (page_click ClickReset pg) = None
        \<and> wait d (page_click ClickReset pg) = page_click ClickReset pg"
  proof
    assume "isProcessActive (app pg)"
    then have "timer (page_click ClickReset pg) = None"
      by (simp add: update_def render_def overflowEffect_def autoAdvanceEffect_def deps_def
            resetEnabled_def op_defs)
    then show "timer (page_click ClickReset pg) = None
        \<and> wait d (page_click ClickReset pg) = page_click ClickReset pg"
      using wait_idle by blast
  qed
  have l: "autoAdvanceArmed (app pg) \<and> \<not> autoAdvanceArmed s' \<longrightarrow>
        timer (update s' pg) = None \<and> wait d (update s' pg) = update s' pg"
    using cancel_on_leaving [of pg s'] wait_idle [of "update s' pg" d] by blast
  have i: "timer_inv (timed_run as initial_page)"
    using timer_inv_timed_run [OF timer_inv_initial] .
  show ?thesis
    using a b c m r l i by blast
qed

theorem auto_advance_timer_witness:
  "isProcessActive (app initial_page) = False \<and> isAutoMode (app initial_page)
   \<and> step (app started_page) = 1 \<and> timer started_page = Some 800
   \<and> app (wait 799 started_page) = app started_page
   \<and> timer (wait 799 started_page) = Some 1
   \<and> app (wait 800 started_page) = nextStep (app started_page)
   \<and> step (app (wait 800 started_page)) = 2
   \<and> step (app (wait 1600 started_page)) = 3
   \<and> step (app (wait 2400 started_page)) = 4
   \<and> step (app (wait 3200 started_page)) = 5
   \<and> Idle (app (wait 4000 started_page))
   \<and> items (app (wait 4000 started_page)) =
        [\<lparr>item_id = 1, name = ''Apple'', selected = True\<rparr>,
         \<lparr>item_id = 2, name = ''Banana'', selected = False\<rparr>,
         \<lparr>item_id = 3, name = ''Cherry'', selected = False\<rparr>]
   \<and> timer (wait 4000 started_page) = None
   \<and> wait 5000 started_page = wait 4000 started_page
   \<and> timer (page_click ClickMode started_page) = None
   \<and> wait 800 (page_click ClickMode started_page) = page_click ClickMode started_page
   \<and> timer (page_click ClickReset started_page) = None
   \<and> timer (update (resetProcess (app started_page)) started_page) = None
   \<and> timer_inv (timed_run [Click (ClickToggle 1), Wait 1000, Click ClickMode] initial_page)"
proof -
  have h0: "\<not> isProcessActive (app initial_page) \<and> isAutoMode (app initial_page)"
    by (simp add: initial_page_def initial_state_def)
  have n: "next (diff (app started_page)) =
        [\<lparr>item_id = 1, name = ''Apple'', selected = True\<rparr>,
         \<lparr>item_id = 2, name = ''Banana'', selected = False\<rparr>,
         \<lparr>item_id = 3, name = ''Cherry'', selected = False\<rparr>]"
    by (simp add: started_page_def initial_page_def initial_state_def initial_items_def
          update_def render_def overflowEffect_def op_defs)
  have g: "isProcessActive (app started_page) \<and> isAutoMode (app started_page)
           \<and> autoAdvanceArmed (app started_page)
           \<and> \<not> autoAdvanceArmed (resetProcess (app started_page))"
    by (simp add: started_page_def initial_page_def initial_state_def autoAdvanceArmed_def
          update_def render_def overflowEffect_def op_defs)
  note t1 = auto_advance_timer [where pg = initial_page and e = "ClickToggle 1" and i = 1
      and now = 0 and d = 1000 and s' = "app initial_page"
      and as = "[Click (ClickToggle 1), Wait 1000, Click ClickMode]",
      folded started_page_def]
  note t2 = auto_advance_timer [where pg = started_page and e = "ClickToggle 1" and i = 1
      and now = 0 and d = 800 and s' = "resetProcess (app started_page)" and as = "[]"]
  have c: "step (app started_page) = 1 \<and> timer started_page = Some 800
       \<and> step (app (wait 800 started_page)) = 2
       \<and> step (app (wait 1600 started_page)) = 3
       \<and> step (app (wait 2400 started_page)) = 4
       \<and> step (app (wait 3200 started_page)) = 5
       \<and> Idle (app (wait 4000 started_page))
       \<and> items (app (wait 4000 started_page)) = next (diff (app started_page))
       \<and> timer (wait 4000 started_page) = None
       \<and> wait (4000 + 1000) started_page = wait 4000 started_page"
    using t1 h0 by blast
  have i: "timer_inv (timed_run [Click (ClickToggle 1), Wait 1000, Click ClickMode]
             initial_page)"
    using t1 by blast
  have b: "(\<forall>d < 800. app (wait d started_page) = app started_page
                     \<and> timer (wait d started_page) = Some (800 - d))
           \<and> app (wait 800 started_page) = nextStep (app started_page)"
    using t2 c by blast
  then have b1: "app (wait 799 started_page) = app started_page
                 \<and> timer (wait 799 started_page) = Some 1"
    by simp
  have m: "timer (page_click ClickMode started_page) = None
       \<and> wait 800 (page_click ClickMode started_page) = page_click ClickMode started_page"
    using t2 g by blast
  have r: "timer (page_click ClickReset started_page) = None"
    using t2 g by blast
  have l: "timer (update (resetProcess (app started_page)) started_page) = None"
    using t2 g by blast
  show ?thesis
    using h0 n c i b b1 m r l by simp
qed

end
